theory Spec2Isabelle
  imports Main
begin

section \<open>Python values used by maze0.py\<close>

text \<open>
  The exceptions that the code of \<^verbatim>\<open>week-0/maze0.py\<close> can raise. Python raises the
  same \<^verbatim>\<open>IndexError\<close> for every sequence; the model records which sequence was indexed
  out of range, so that the three places where it can happen stay apart:
  the pending list of a frontier (\<^verbatim>\<open>self.nodes[-1]\<close>, \<^verbatim>\<open>self.nodes[0]\<close>),
  the grid (\<^verbatim>\<open>self.maze_arr[x][y]\<close>) and a point tuple (\<^verbatim>\<open>self.start_point[0]\<close>).
  \<^verbatim>\<open>AttributeError\<close> is the access \<^verbatim>\<open>node.state\<close> or \<^verbatim>\<open>node.parent\<close> on \<^verbatim>\<open>None\<close>.
  The three \<^verbatim>\<open>raise Exception(...)\<close> of \<^verbatim>\<open>_validate_maze_points\<close> are told apart
  by their message.
\<close>

datatype container = PendingList | MazeGrid | PointTuple

datatype message = Maze_is_empty | Rows_must_have_same_number_of_cells | No_start_and_end_points

datatype error = IndexError container | AttributeError | Exception message

text \<open>
  Python list indexing: an index \<open>i\<close> with \<open>0 \<le> i < len\<close> is position \<open>i\<close>, an index
  with \<open>-len \<le> i < 0\<close> is position \<open>len + i\<close>, anything else raises.
\<close>

definition norm_index :: "nat \<Rightarrow> int \<Rightarrow> nat option" where
  "norm_index n i =
     (if 0 \<le> i \<and> i < int n then Some (nat i)
      else if - int n \<le> i \<and> i < 0 then Some (nat (int n + i))
      else None)"

definition list_get :: "container \<Rightarrow> 'a list \<Rightarrow> int \<Rightarrow> error + 'a" where
  "list_get c xs i =
     (case norm_index (length xs) i of
        None \<Rightarrow> Inl (IndexError c)
      | Some k \<Rightarrow> Inr (xs ! k))"

definition list_set :: "container \<Rightarrow> 'a list \<Rightarrow> int \<Rightarrow> 'a \<Rightarrow> error + 'a list" where
  "list_set c xs i v =
     (case norm_index (length xs) i of
        None \<Rightarrow> Inl (IndexError c)
      | Some k \<Rightarrow> Inr (xs[k := v]))"

section \<open>Node\<close>

text \<open>
  \<^verbatim>\<open>class Node\<close>: the fields in the order of \<^verbatim>\<open>__init__(state, x, y, action, parent)\<close>.
  A state is one character of the grid, \<^verbatim>\<open>action\<close> and \<^verbatim>\<open>parent\<close> default to \<^verbatim>\<open>None\<close>.
\<close>

datatype node = Node (state: char) (x: int) (y: int) (action: "string option") (parent: "node option")

text \<open>\<^verbatim>\<open>Node.__eq__\<close>: two nodes are equal when their coordinates are.\<close>

definition node_eq :: "node \<Rightarrow> node \<Rightarrow> bool" where
  "node_eq a b \<longleftrightarrow> x a = x b \<and> y a = y b"

text \<open>\<^verbatim>\<open>node in nodes\<close>: Python compares with \<^verbatim>\<open>==\<close>, that is with \<^verbatim>\<open>__eq__\<close>.\<close>

definition node_in :: "node \<Rightarrow> node list \<Rightarrow> bool" where
  "node_in n ns \<longleftrightarrow> list_ex (node_eq n) ns"

section \<open>Frontiers\<close>

text \<open>
  \<^verbatim>\<open>BaseFrontier\<close> with its two subclasses: the subclass is the field \<open>kind\<close>, which
  only \<open>remove\<close> looks at.
\<close>

datatype discipline = StackFrontier | QueueFrontier

record frontier =
  kind :: discipline
  nodes :: "node list"
  explored_nodes :: "node list"

definition new_frontier :: "discipline \<Rightarrow> frontier" where
  "new_frontier k = \<lparr>kind = k, nodes = [], explored_nodes = []\<rparr>"

definition add :: "frontier \<Rightarrow> node \<Rightarrow> frontier" where
  "add f node =
     (if \<not> node_in node (nodes f) \<and> \<not> node_in node (explored_nodes f)
      then f\<lparr>nodes := nodes f @ [node]\<rparr>
      else f)"

definition is_empty :: "frontier \<Rightarrow> bool" where
  "is_empty f \<longleftrightarrow> length (nodes f) = 0"

text \<open>
  \<^verbatim>\<open>remove\<close>: \<^verbatim>\<open>self.nodes[-1]\<close> and \<^verbatim>\<open>self.nodes[0]\<close> raise on the empty list;
  \<^verbatim>\<open>self.nodes[:-1]\<close> is the list without its last element, \<^verbatim>\<open>self.nodes[1:]\<close> the
  list without its first.
\<close>

definition remove :: "frontier \<Rightarrow> error + (node \<times> frontier)" where
  "remove f =
     (case kind f of
        StackFrontier \<Rightarrow>
          (case list_get PendingList (nodes f) (- 1) of
             Inl e \<Rightarrow> Inl e
           | Inr node \<Rightarrow>
               Inr (node, f\<lparr>nodes := butlast (nodes f),
                             explored_nodes := explored_nodes f @ [node]\<rparr>))
      | QueueFrontier \<Rightarrow>
          (case list_get PendingList (nodes f) 0 of
             Inl e \<Rightarrow> Inl e
           | Inr node \<Rightarrow>
               Inr (node, f\<lparr>nodes := tl (nodes f),
                             explored_nodes := explored_nodes f @ [node]\<rparr>)))"

section \<open>Maze\<close>

type_synonym grid = "char list list"

record maze =
  maze_arr :: grid
  start_point :: "(int \<times> int) option"
  end_point :: "(int \<times> int) option"
  rows_count :: int
  cells_count :: int
  steps :: int

definition START :: char where "START = CHR ''A''"
definition TARGET :: char where "TARGET = CHR ''B''"

subsection \<open>Construction\<close>

text \<open>
  \<^verbatim>\<open>_get_start_end_points\<close>: every cell of every row is visited, so the last start marker
  and the last target marker in row-major order win. The empty tuple is \<open>None\<close>.
\<close>

primrec scan_row ::
  "int \<Rightarrow> int \<Rightarrow> char list \<Rightarrow> (int \<times> int) option \<times> (int \<times> int) option
     \<Rightarrow> (int \<times> int) option \<times> (int \<times> int) option" where
  "scan_row i j [] pts = pts"
| "scan_row i j (cell # row) pts =
     scan_row i (j + 1) row
       (if cell = START then (Some (i, j), snd pts)
        else if cell = TARGET then (fst pts, Some (i, j))
        else pts)"

primrec scan_rows ::
  "int \<Rightarrow> grid \<Rightarrow> (int \<times> int) option \<times> (int \<times> int) option
     \<Rightarrow> (int \<times> int) option \<times> (int \<times> int) option" where
  "scan_rows i [] pts = pts"
| "scan_rows i (row # rows) pts = scan_rows (i + 1) rows (scan_row i 0 row pts)"

definition get_start_end_points :: "grid \<Rightarrow> (int \<times> int) option \<times> (int \<times> int) option" where
  "get_start_end_points arr = scan_rows 0 arr (None, None)"

text \<open>\<^verbatim>\<open>_validate_maze_points\<close>: \<^verbatim>\<open>len(point) != 2\<close> holds of the empty tuple only.\<close>

definition validate_maze_points ::
  "grid \<Rightarrow> (int \<times> int) option \<Rightarrow> (int \<times> int) option \<Rightarrow> error + unit" where
  "validate_maze_points arr sp ep =
     (if length arr < 1 then Inl (Exception Maze_is_empty)
      else if list_ex (\<lambda>row. length row \<noteq> length (arr ! 0)) arr
        then Inl (Exception Rows_must_have_same_number_of_cells)
      else if ep = None \<or> sp = None then Inl (Exception No_start_and_end_points)
      else Inr ())"

text \<open>
  \<^verbatim>\<open>Maze.__init__\<close>, from the grid that \<^verbatim>\<open>_parse_maze_file\<close> has read (reading the
  file is outside the model).
\<close>

definition Maze_init :: "grid \<Rightarrow> error + maze" where
  "Maze_init arr =
     (case get_start_end_points arr of
        (sp, ep) \<Rightarrow>
          (case validate_maze_points arr sp ep of
             Inl e \<Rightarrow> Inl e
           | Inr _ \<Rightarrow>
               Inr \<lparr>maze_arr = arr, start_point = sp, end_point = ep,
                    rows_count = int (length arr),
                    cells_count = int (length (arr ! 0)),
                    steps = 0\<rparr>))"

subsection \<open>Reading and writing cells\<close>

text \<open>\<^verbatim>\<open>_get_state\<close>, and every other read \<^verbatim>\<open>self.maze_arr[x][y]\<close>.\<close>

definition get_state :: "maze \<Rightarrow> int \<Rightarrow> int \<Rightarrow> error + char" where
  "get_state m i j =
     (case list_get MazeGrid (maze_arr m) i of
        Inl e \<Rightarrow> Inl e
      | Inr row \<Rightarrow> list_get MazeGrid row j)"

text \<open>The assignment \<^verbatim>\<open>self.maze_arr[x][y] = v\<close>: the row is fetched, then written in place.\<close>

definition set_state :: "maze \<Rightarrow> int \<Rightarrow> int \<Rightarrow> char \<Rightarrow> error + maze" where
  "set_state m i j v =
     (case norm_index (length (maze_arr m)) i of
        None \<Rightarrow> Inl (IndexError MazeGrid)
      | Some k \<Rightarrow>
          (case list_set MazeGrid (maze_arr m ! k) j v of
             Inl e \<Rightarrow> Inl e
           | Inr row \<Rightarrow> Inr (m\<lparr>maze_arr := (maze_arr m)[k := row]\<rparr>)))"

subsection \<open>Neighbours\<close>

text \<open>
  \<^verbatim>\<open>_next_cell\<close>. The bound check comes first and short-cuts the read of the grid;
  a movement that is none of the four leaves the coordinates as they are.
\<close>

definition blocked :: "maze \<Rightarrow> bool \<Rightarrow> int \<Rightarrow> int \<Rightarrow> error + (int \<times> int) option" where
  "blocked m outside i j =
     (if outside then Inr None
      else (case get_state m i j of
              Inl e \<Rightarrow> Inl e
            | Inr c \<Rightarrow> if c = CHR ''#'' then Inr None else Inr (Some (i, j))))"

definition next_cell :: "maze \<Rightarrow> int \<Rightarrow> int \<Rightarrow> string \<Rightarrow> error + (int \<times> int) option" where
  "next_cell m i j movement =
     (if movement = ''UP'' then blocked m (i - 1 < 0) (i - 1) j
      else if movement = ''DOWN'' then blocked m (i + 1 \<ge> rows_count m) (i + 1) j
      else if movement = ''LEFT'' then blocked m (j - 1 < 0) i (j - 1)
      else if movement = ''RIGHT'' then blocked m (j + 1 \<ge> cells_count m) i (j + 1)
      else Inr (Some (i, j)))"

text \<open>\<^verbatim>\<open>_get_neighbors\<close>: the loop over the movements, in the order of the source.\<close>

fun neighbors_of :: "maze \<Rightarrow> node \<Rightarrow> string list \<Rightarrow> node list \<Rightarrow> error + node list" where
  "neighbors_of m node [] availabe_nodes = Inr availabe_nodes"
| "neighbors_of m node (movement # movements) availabe_nodes =
     (case next_cell m (x node) (y node) movement of
        Inl e \<Rightarrow> Inl e
      | Inr None \<Rightarrow> neighbors_of m node movements availabe_nodes
      | Inr (Some (i, j)) \<Rightarrow>
          (case get_state m i j of
             Inl e \<Rightarrow> Inl e
           | Inr st \<Rightarrow>
               neighbors_of m node movements
                 (availabe_nodes @ [Node st i j (Some movement) (Some node)])))"

definition get_neighbors :: "maze \<Rightarrow> node \<Rightarrow> error + node list" where
  "get_neighbors m node = neighbors_of m node [''UP'', ''LEFT'', ''DOWN'', ''RIGHT''] []"

subsection \<open>Path reconstruction\<close>

text \<open>
  \<^verbatim>\<open>_apply_solution\<close>: \<open>walk_back\<close> is the \<^verbatim>\<open>while\<close> loop, on the node that
  \<^verbatim>\<open>node = node.parent\<close> has just fetched; on \<^verbatim>\<open>None\<close> the test \<^verbatim>\<open>node.state\<close> raises.
\<close>

fun walk_back :: "maze \<Rightarrow> node option \<Rightarrow> error + maze" where
  "walk_back m None = Inl AttributeError"
| "walk_back m (Some (Node st i j a p)) =
     (if st \<noteq> START
      then (case set_state m i j (CHR ''*'') of
              Inl e \<Rightarrow> Inl e
            | Inr m' \<Rightarrow> walk_back m' p)
      else Inr m)"

definition apply_solution :: "maze \<Rightarrow> node \<Rightarrow> error + maze" where
  "apply_solution m node = walk_back m (parent node)"

subsection \<open>The search\<close>

text \<open>
  The explored mark of line 134: the right-hand side is read first, then the cell is
  written (with the value it had, when it was not open).
\<close>

definition mark_explored :: "maze \<Rightarrow> node \<Rightarrow> error + maze" where
  "mark_explored m node =
     (case get_state m (x node) (y node) of
        Inl e \<Rightarrow> Inl e
      | Inr c \<Rightarrow> set_state m (x node) (y node) (if c = CHR '' '' then CHR ''/'' else c))"



section \<open>Termination of the search loop\<close>

text \<open>
  The coordinates of a node, the coordinates a frontier has seen (pending or explored),
  and a finite set of coordinates that holds every index pair the grid accepts.
\<close>

definition coords :: "node \<Rightarrow> int \<times> int" where "coords n = (x n, y n)"

definition seen :: "frontier \<Rightarrow> (int \<times> int) set" where
  "seen f = coords ` (set (nodes f) \<union> set (explored_nodes f))"

definition extent :: "maze \<Rightarrow> int" where
  "extent m = int (length (maze_arr m) + sum_list (map length (maze_arr m)))"

definition universe :: "maze \<Rightarrow> (int \<times> int) set" where
  "universe m = {- extent m ..< extent m} \<times> {- extent m ..< extent m}"

definition unseen :: "maze \<times> frontier \<Rightarrow> nat" where
  "unseen s = card (universe (fst s) - seen (snd s))"


lemma norm_index_SomeD:
  "norm_index n i = Some k \<Longrightarrow> k < n \<and> - int n \<le> i \<and> i < int n"
  by (auto simp: norm_index_def split: if_splits)

lemma list_get_InrD:
  "list_get c xs i = Inr v \<Longrightarrow> \<exists>k. norm_index (length xs) i = Some k \<and> v = xs ! k"
  by (auto simp: list_get_def split: option.splits)

lemma length_le_sum_list: "k < length xss \<Longrightarrow> length (xss ! k) \<le> sum_list (map length xss)"
  by (simp add: member_le_sum_list)

lemma get_state_universe:
  assumes "get_state m i j = Inr c"
  shows "(i, j) \<in> universe m"
proof -
  from assms obtain row where r: "list_get MazeGrid (maze_arr m) i = Inr row"
    and c: "list_get MazeGrid row j = Inr c"
    by (auto simp: get_state_def split: sum.splits)
  from r obtain k where k: "norm_index (length (maze_arr m)) i = Some k" "row = maze_arr m ! k"
    by (auto dest: list_get_InrD)
  from c obtain l where l: "norm_index (length row) j = Some l"
    by (auto dest: list_get_InrD)
  from k(1) have ki: "k < length (maze_arr m)" "- int (length (maze_arr m)) \<le> i" "i < int (length (maze_arr m))"
    by (auto dest: norm_index_SomeD)
  from l have lj: "- int (length row) \<le> j" "j < int (length row)"
    by (auto dest: norm_index_SomeD)
  have "length row \<le> sum_list (map length (maze_arr m))"
    using ki(1) k(2) by (simp add: length_le_sum_list)
  with ki lj show ?thesis by (simp add: universe_def extent_def)
qed

lemma set_state_InrD:
  assumes "set_state m i j v = Inr m'"
  shows "\<exists>k l. norm_index (length (maze_arr m)) i = Some k \<and>
           norm_index (length (maze_arr m ! k)) j = Some l \<and>
           m' = m\<lparr>maze_arr := (maze_arr m)[k := (maze_arr m ! k)[l := v]]\<rparr>"
  using assms by (auto simp: set_state_def list_set_def split: option.splits sum.splits)

lemma map_length_set_cell:
  "k < length arr \<Longrightarrow> map length (arr[k := (arr ! k)[l := v]]) = map length arr"
  by (simp add: map_update list_update_same_conv)

lemma set_state_extent: "set_state m i j v = Inr m' \<Longrightarrow> extent m' = extent m"
  by (auto dest!: set_state_InrD dest: norm_index_SomeD simp: extent_def map_length_set_cell)

lemma mark_explored_extent: "mark_explored m n = Inr m' \<Longrightarrow> extent m' = extent m"
  by (auto simp: mark_explored_def split: sum.splits dest: set_state_extent)

lemma blocked_universe: "blocked m b i j = Inr (Some p) \<Longrightarrow> p \<in> universe m"
  by (auto simp: blocked_def split: if_splits sum.splits dest: get_state_universe)

lemma neighbors_of_universe:
  "neighbors_of m n mvs acc = Inr ns \<Longrightarrow> \<forall>v\<in>set acc. coords v \<in> universe m
     \<Longrightarrow> \<forall>v\<in>set ns. coords v \<in> universe m"
proof (induction mvs arbitrary: acc)
  case Nil
  then show ?case by simp
next
  case (Cons mv mvs)
  show ?case
  proof (cases "next_cell m (x n) (y n) mv")
    case (Inl e)
    with Cons.prems show ?thesis by simp
  next
    case (Inr r)
    show ?thesis
    proof (cases r)
      case None
      with Inr Cons show ?thesis by simp
    next
      case (Some p)
      obtain i j where p: "p = (i, j)" by (cases p)
      from Cons.prems(1) Inr Some p obtain st where
        st: "get_state m i j = Inr st"
        and rec: "neighbors_of m n mvs (acc @ [Node st i j (Some mv) (Some n)]) = Inr ns"
        by (auto split: sum.splits)
      have "coords (Node st i j (Some mv) (Some n)) \<in> universe m"
        using get_state_universe[OF st] by (simp add: coords_def)
      with Cons.prems(2) have "\<forall>v\<in>set (acc @ [Node st i j (Some mv) (Some n)]). coords v \<in> universe m"
        by auto
      from Cons.IH[OF rec this] show ?thesis .
    qed
  qed
qed

lemma get_neighbors_universe:
  "get_neighbors m n = Inr ns \<Longrightarrow> v \<in> set ns \<Longrightarrow> coords v \<in> universe m"
proof -
  assume a: "get_neighbors m n = Inr ns" and v: "v \<in> set ns"
  have "neighbors_of m n [''UP'', ''LEFT'', ''DOWN'', ''RIGHT''] [] = Inr ns"
    using a unfolding get_neighbors_def .
  from neighbors_of_universe[OF this] v show ?thesis by simp
qed

lemma node_in_iff: "node_in n ns \<longleftrightarrow> coords n \<in> coords ` set ns"
  by (auto simp: node_in_def list_ex_iff node_eq_def coords_def)

lemma remove_InrD:
  assumes "remove f = Inr (n, f1)"
  shows "nodes f \<noteq> [] \<and> kind f1 = kind f \<and> explored_nodes f1 = explored_nodes f @ [n] \<and>
         (case kind f of StackFrontier \<Rightarrow> n = last (nodes f) \<and> nodes f1 = butlast (nodes f)
                       | QueueFrontier \<Rightarrow> n = hd (nodes f) \<and> nodes f1 = tl (nodes f))"
  using assms
  by (cases "nodes f" rule: rev_cases; cases "nodes f")
     (auto simp: remove_def list_get_def norm_index_def last_conv_nth hd_conv_nth
           split: discipline.splits if_splits)

lemma remove_seen:
  assumes "remove f = Inr (n, f1)"
  shows "seen f1 = seen f" and "Suc (length (nodes f1)) = length (nodes f)"
proof -
  from remove_InrD[OF assms] have ne: "nodes f \<noteq> []"
    and ex: "explored_nodes f1 = explored_nodes f @ [n]"
    and k: "(kind f = StackFrontier \<and> n = last (nodes f) \<and> nodes f1 = butlast (nodes f)) \<or>
            (kind f = QueueFrontier \<and> n = hd (nodes f) \<and> nodes f1 = tl (nodes f))"
    by (auto split: discipline.splits)
  have "set (nodes f1) \<union> {n} = set (nodes f)"
  proof (cases "kind f")
    case StackFrontier
    with k have "nodes f = nodes f1 @ [n]" using ne by simp
    then show ?thesis by auto
  next
    case QueueFrontier
    with k have "nodes f = n # nodes f1" using ne by simp
    then show ?thesis by auto
  qed
  then show "seen f1 = seen f" using ex by (auto simp: seen_def)
  show "Suc (length (nodes f1)) = length (nodes f)" using k ne by (auto simp: Suc_pred)
qed

lemma add_cases:
  "(add f v = f \<and> coords v \<in> seen f) \<or>
   (coords v \<notin> seen f \<and> add f v = f\<lparr>nodes := nodes f @ [v]\<rparr>)"
  by (auto simp: add_def node_in_iff seen_def)

lemma seen_add: "seen (add f v) = insert (coords v) (seen f)"
  using add_cases[of f v] by (auto simp: seen_def)

lemma finite_universe: "finite (universe m)"
  by (simp add: universe_def)

lemma add_unseen:
  assumes "coords v \<in> U" "finite U"
  shows "add f v = f \<or> card (U - seen (add f v)) < card (U - seen f)"
proof (cases "coords v \<in> seen f")
  case True
  then show ?thesis using add_cases[of f v] by auto
next
  case False
  have "U - seen (add f v) \<subset> U - seen f"
    using False assms(1) by (auto simp: seen_add)
  then show ?thesis using assms(2) by (simp add: psubset_card_mono)
qed

lemma foldl_add_unseen:
  assumes "\<forall>v\<in>set vs. coords v \<in> U" "finite U"
  shows "foldl add f vs = f \<or> card (U - seen (foldl add f vs)) < card (U - seen f)"
  using assms(1)
proof (induction vs arbitrary: f)
  case Nil
  then show ?case by simp
next
  case (Cons v vs)
  from Cons.prems have v: "coords v \<in> U" and vs: "\<forall>v\<in>set vs. coords v \<in> U" by auto
  from Cons.IH[OF vs, of "add f v"] add_unseen[OF v assms(2), of f]
  show ?case by auto
qed

text \<open>
  One turn of the \<^verbatim>\<open>while\<close> loop of \<^verbatim>\<open>solve\<close>, after its test: the flag
  tells whether the turn has returned \<^verbatim>\<open>True\<close> (the target was removed) or
  the loop goes on.
\<close>

definition solve_body :: "maze \<Rightarrow> frontier \<Rightarrow> error + (bool \<times> maze \<times> frontier)" where
  "solve_body m frontier =
     (case remove frontier of
        Inl e \<Rightarrow> Inl e
      | Inr (node, frontier1) \<Rightarrow>
          (case mark_explored (m\<lparr>steps := steps m + 1\<rparr>) node of
             Inl e \<Rightarrow> Inl e
           | Inr m1 \<Rightarrow>
               if state node = TARGET
               then (case apply_solution m1 node of
                       Inl e \<Rightarrow> Inl e
                     | Inr m2 \<Rightarrow> Inr (True, m2, frontier1))
               else (case get_neighbors m1 node of
                       Inl e \<Rightarrow> Inl e
                     | Inr new_nodes \<Rightarrow> Inr (False, m1, foldl add frontier1 new_nodes))))"

lemma solve_body_decreases:
  assumes "solve_body m f = Inr (False, m', f')"
  shows "((m', f'), (m, f)) \<in> unseen <*mlex*> measure (\<lambda>s. length (nodes (snd s)))"
proof -
  from assms obtain node f1 m1 new_nodes where
    rm: "remove f = Inr (node, f1)"
    and mk: "mark_explored (m\<lparr>steps := steps m + 1\<rparr>) node = Inr m1"
    and nb: "get_neighbors m1 node = Inr new_nodes"
    and m': "m' = m1" and f': "f' = foldl add f1 new_nodes"
    by (auto simp: solve_body_def split: sum.splits prod.splits if_splits)
  have ext: "universe m1 = universe m"
    using mark_explored_extent[OF mk] by (simp add: universe_def extent_def)
  have "\<forall>v\<in>set new_nodes. coords v \<in> universe m"
    using get_neighbors_universe[OF nb] ext by simp
  from foldl_add_unseen[OF this finite_universe, of f1]
  show ?thesis
  proof
    assume "foldl add f1 new_nodes = f1"
    then show ?thesis
      using remove_seen[OF rm] ext m' f' by (simp add: mlex_iff unseen_def)
  next
    assume "card (universe m - seen (foldl add f1 new_nodes)) < card (universe m - seen f1)"
    then show ?thesis
      using remove_seen[OF rm] ext m' f' by (simp add: mlex_iff unseen_def)
  qed
qed

text \<open>The \<^verbatim>\<open>while\<close> loop of \<^verbatim>\<open>solve\<close> with the \<^verbatim>\<open>return False\<close> after it.\<close>

function solve_loop :: "maze \<Rightarrow> frontier \<Rightarrow> error + (bool \<times> maze \<times> frontier)" where
  "solve_loop m frontier =
     (if \<not> is_empty frontier then
        (case solve_body m frontier of
           Inl e \<Rightarrow> Inl e
         | Inr (found, m', frontier') \<Rightarrow>
             if found then Inr (True, m', frontier') else solve_loop m' frontier')
      else Inr (False, m, frontier))"
  by pat_completeness auto
termination
proof (relation "unseen <*mlex*> measure (\<lambda>s. length (nodes (snd s)))", goal_cases)
  case 1
  show ?case by (simp add: wf_mlex)
next
  case (2 m frontier r found rest m' frontier')
  then show ?case using solve_body_decreases[of m frontier m' frontier'] by auto
qed

declare solve_loop.simps [simp del]

text \<open>
  \<^verbatim>\<open>solve\<close>: the result is the returned flag with the maze and the frontier as the
  call has left them.
\<close>

definition solve :: "maze \<Rightarrow> frontier \<Rightarrow> error + (bool \<times> maze \<times> frontier)" where
  "solve m frontier =
     (case start_point m of
        None \<Rightarrow> Inl (IndexError PointTuple)
      | Some (i, j) \<Rightarrow>
          (case get_state m i j of
             Inl e \<Rightarrow> Inl e
           | Inr st \<Rightarrow> solve_loop m (add frontier (Node st i j None None))))"

section \<open>The frontier operations\<close>


lemma add_same_coords_noop:
  assumes "x n' = x n" "y n' = y n"
  shows "add (add f n) n' = add f n"
proof -
  have "coords n' \<in> seen (add f n)" using assms by (simp add: seen_add coords_def)
  then show ?thesis using add_cases[of "add f n" n'] by auto
qed

text \<open>
  Claim C7. \<open>add\<close> is idempotent with respect to coordinates: after \<open>add\<close> of a node,
  a second \<open>add\<close> of any node with the same coordinates, whatever its state, action
  and parent, leaves the pending list unchanged, and so its size (here the whole frontier
  is unchanged).
\<close>

theorem add_idempotent_on_coordinates:
  assumes "x n' = x n" and "y n' = y n"
  shows "nodes (add (add f n) n') = nodes (add f n) \<and>
         length (nodes (add (add f n) n')) = length (nodes (add f n)) \<and>
         add (add f n) n' = add f n"
  using add_same_coords_noop[OF assms] by simp

theorem add_idempotent_on_coordinates_witness:
  "x (Node (CHR ''B'') 2 3 (Some ''UP'') (Some (Node (CHR ''A'') 3 3 None None))) = x (Node (CHR '' '') 2 3 None None) \<and>
   y (Node (CHR ''B'') 2 3 (Some ''UP'') (Some (Node (CHR ''A'') 3 3 None None))) = y (Node (CHR '' '') 2 3 None None) \<and>
   nodes (add (add (new_frontier QueueFrontier) (Node (CHR '' '') 2 3 None None))
            (Node (CHR ''B'') 2 3 (Some ''UP'') (Some (Node (CHR ''A'') 3 3 None None))))
     = [Node (CHR '' '') 2 3 None None]"
  using add_idempotent_on_coordinates[of
      "Node (CHR ''B'') 2 3 (Some ''UP'') (Some (Node (CHR ''A'') 3 3 None None))"
      "Node (CHR '' '') 2 3 None None" "new_frontier QueueFrontier"]
  by (simp add: add_def new_frontier_def node_in_def)

section \<open>Frontier states reachable by add and remove\<close>

text \<open>
  The frontiers that a sequence of calls of \<open>add\<close> and \<open>remove\<close> produces from a
  new frontier of either class. A \<open>remove\<close> that raises leaves the frontier as it was.
\<close>

inductive reachable :: "frontier \<Rightarrow> bool" where
  empty: "reachable (new_frontier k)"
| added: "reachable f \<Longrightarrow> reachable (add f n)"
| removed: "reachable f \<Longrightarrow> remove f = Inr (n, f') \<Longrightarrow> reachable f'"

text \<open>
  A frontier of the stack class after \<open>add\<close> at (0, 0), \<open>add\<close> at (0, 1), \<open>remove\<close>
  and a further \<open>add\<close> at (0, 1).
\<close>

definition stack_example :: frontier where
  "stack_example =
     (case remove (add (add (new_frontier StackFrontier) (Node (CHR ''A'') 0 0 None None))
                       (Node (CHR '' '') 0 1 (Some ''RIGHT'') (Some (Node (CHR ''A'') 0 0 None None)))) of
        Inl e \<Rightarrow> new_frontier StackFrontier
      | Inr (n, f) \<Rightarrow> add f (Node (CHR ''/'') 0 1 None None))"

definition separated :: "frontier \<Rightarrow> bool" where
  "separated f \<longleftrightarrow> distinct (map coords (nodes f @ explored_nodes f))"

lemma nodes_add: "nodes (add f n) = (if coords n \<in> seen f then nodes f else nodes f @ [n])"
  using add_cases[of f n] by auto

lemma explored_add [simp]: "explored_nodes (add f n) = explored_nodes f"
  by (simp add: add_def)

lemma kind_add [simp]: "kind (add f n) = kind f"
  by (simp add: add_def)

lemma separated_add: "separated f \<Longrightarrow> separated (add f n)"
  by (auto simp: separated_def nodes_add seen_def)

lemma separated_remove:
  assumes "separated f" "remove f = Inr (n, f')"
  shows "separated f'"
proof -
  from remove_InrD[OF assms(2)] have ne: "nodes f \<noteq> []"
    and ex: "explored_nodes f' = explored_nodes f @ [n]"
    and k: "(kind f = StackFrontier \<and> n = last (nodes f) \<and> nodes f' = butlast (nodes f)) \<or>
            (kind f = QueueFrontier \<and> n = hd (nodes f) \<and> nodes f' = tl (nodes f))"
    by (auto split: discipline.splits)
  from k show ?thesis
  proof
    assume "kind f = StackFrontier \<and> n = last (nodes f) \<and> nodes f' = butlast (nodes f)"
    then have "nodes f = nodes f' @ [n]" using ne by simp
    then show ?thesis using assms(1) ex by (auto simp: separated_def)
  next
    assume "kind f = QueueFrontier \<and> n = hd (nodes f) \<and> nodes f' = tl (nodes f)"
    then have "nodes f = n # nodes f'" using ne by simp
    then show ?thesis using assms(1) ex by (auto simp: separated_def)
  qed
qed

lemma reachable_separated: "reachable f \<Longrightarrow> separated f"
proof (induction rule: reachable.induct)
  case (empty k)
  show ?case by (simp add: separated_def new_frontier_def)
next
  case (added f n)
  then show ?case by (simp add: separated_add)
next
  case (removed f n f')
  then show ?case by (simp add: separated_remove)
qed

text \<open>
  Claim C3. In every frontier reachable from an empty frontier by \<open>add\<close> and
  \<open>remove\<close>, no coordinate is in the pending list and in the explored list at the
  same time, and every coordinate occurs at most once in the pending list.
\<close>

theorem frontier_pending_explored_disjoint:
  assumes "reachable f"
  shows "(\<forall>n\<in>set (nodes f). \<not> node_in n (explored_nodes f)) \<and>
         (\<forall>n\<in>set (explored_nodes f). \<not> node_in n (nodes f)) \<and>
         distinct (map coords (nodes f))"
  using reachable_separated[OF assms]
  by (auto simp: separated_def node_in_iff)

lemma stack_example_value:
  "stack_example =
     \<lparr>kind = StackFrontier,
      nodes = [Node (CHR ''A'') 0 0 None None],
      explored_nodes = [Node (CHR '' '') 0 1 (Some ''RIGHT'') (Some (Node (CHR ''A'') 0 0 None None))]\<rparr>"
  by (simp add: stack_example_def remove_def add_def new_frontier_def node_in_def node_eq_def
      list_get_def norm_index_def)

lemma stack_example_reachable: "reachable stack_example"
proof -
  let ?a = "Node (CHR ''A'') 0 0 None None"
  let ?b = "Node (CHR '' '') 0 1 (Some ''RIGHT'') (Some ?a)"
  let ?f = "add (add (new_frontier StackFrontier) ?a) ?b"
  let ?g = "\<lparr>kind = StackFrontier, nodes = [?a], explored_nodes = [?b]\<rparr>"
  have r: "reachable ?f" by (intro reachable.added reachable.empty)
  have rm: "remove ?f = Inr (?b, ?g)"
    by (simp add: remove_def add_def new_frontier_def node_in_def node_eq_def
        list_get_def norm_index_def)
  have "reachable ?g" by (rule reachable.removed[OF r rm])
  then have "reachable (add ?g (Node (CHR ''/'') 0 1 None None))" by (rule reachable.added)
  moreover have "add ?g (Node (CHR ''/'') 0 1 None None) = stack_example"
    by (simp add: stack_example_value add_def node_in_def node_eq_def)
  ultimately show ?thesis by simp
qed

theorem frontier_pending_explored_disjoint_witness:
  "reachable stack_example \<and>
   nodes stack_example = [Node (CHR ''A'') 0 0 None None] \<and>
   explored_nodes stack_example =
     [Node (CHR '' '') 0 1 (Some ''RIGHT'') (Some (Node (CHR ''A'') 0 0 None None))] \<and>
   \<not> node_in (Node (CHR ''A'') 0 0 None None) (explored_nodes stack_example) \<and>
   \<not> node_in (Node (CHR '' '') 0 1 (Some ''RIGHT'') (Some (Node (CHR ''A'') 0 0 None None)))
        (nodes stack_example) \<and>
   distinct (map coords (nodes stack_example))"
proof -
  have a: "Node (CHR ''A'') 0 0 None None \<in> set (nodes stack_example)"
    by (simp add: stack_example_value)
  have b: "Node (CHR '' '') 0 1 (Some ''RIGHT'') (Some (Node (CHR ''A'') 0 0 None None))
             \<in> set (explored_nodes stack_example)"
    by (simp add: stack_example_value)
  have v: "nodes stack_example = [Node (CHR ''A'') 0 0 None None]"
    "explored_nodes stack_example =
       [Node (CHR '' '') 0 1 (Some ''RIGHT'') (Some (Node (CHR ''A'') 0 0 None None))]"
    by (simp_all add: stack_example_value)
  from frontier_pending_explored_disjoint[OF stack_example_reachable] a b
  have "\<not> node_in (Node (CHR ''A'') 0 0 None None) (explored_nodes stack_example)"
    and "\<not> node_in (Node (CHR '' '') 0 1 (Some ''RIGHT'') (Some (Node (CHR ''A'') 0 0 None None)))
        (nodes stack_example)"
    and "distinct (map coords (nodes stack_example))"
    by blast+
  with stack_example_reachable v show ?thesis by blast
qed

section \<open>The exceptions of the search\<close>

text \<open>
  A maze in which a wall separates the start from the target: the search removes the two
  cells it can reach and returns \<^verbatim>\<open>False\<close> on the empty frontier.
\<close>

definition walled_maze :: maze where
  "walled_maze = \<lparr>maze_arr = [''A #B''], start_point = Some (0, 0), end_point = Some (0, 3),
                   rows_count = 1, cells_count = 4, steps = 0\<rparr>"

lemma list_get_error: "list_get c xs i = Inl e \<Longrightarrow> e = IndexError c"
  by (auto simp: list_get_def split: option.splits)

lemma get_state_error: "get_state m i j = Inl e \<Longrightarrow> e = IndexError MazeGrid"
  by (auto simp: get_state_def split: sum.splits dest: list_get_error)

lemma set_state_error: "set_state m i j v = Inl e \<Longrightarrow> e = IndexError MazeGrid"
  by (auto simp: set_state_def list_set_def split: option.splits sum.splits)

lemma mark_explored_error: "mark_explored m n = Inl e \<Longrightarrow> e = IndexError MazeGrid"
  by (auto simp: mark_explored_def split: sum.splits dest: get_state_error set_state_error)

lemma walk_back_error: "walk_back m p = Inl e \<Longrightarrow> e = AttributeError \<or> e = IndexError MazeGrid"
  by (induction m p rule: walk_back.induct)
     (auto split: if_splits sum.splits dest: set_state_error)

lemma blocked_error: "blocked m b i j = Inl e \<Longrightarrow> e = IndexError MazeGrid"
  by (auto simp: blocked_def split: if_splits sum.splits dest: get_state_error)

lemma next_cell_error: "next_cell m i j mv = Inl e \<Longrightarrow> e = IndexError MazeGrid"
  by (auto simp: next_cell_def split: if_splits dest: blocked_error)

lemma neighbors_of_error: "neighbors_of m n mvs acc = Inl e \<Longrightarrow> e = IndexError MazeGrid"
  by (induction mvs arbitrary: acc)
     (auto split: sum.splits option.splits prod.splits dest: next_cell_error get_state_error)

lemma get_neighbors_error: "get_neighbors m n = Inl e \<Longrightarrow> e = IndexError MazeGrid"
  unfolding get_neighbors_def by (rule neighbors_of_error)

lemma apply_solution_error:
  "apply_solution m n = Inl e \<Longrightarrow> e = AttributeError \<or> e = IndexError MazeGrid"
  unfolding apply_solution_def by (rule walk_back_error)

lemma remove_nonempty: "\<not> is_empty f \<Longrightarrow> \<exists>n f'. remove f = Inr (n, f')"
  by (cases "nodes f")
     (auto simp: is_empty_def remove_def list_get_def norm_index_def split: discipline.splits)

lemma solve_body_error:
  assumes "\<not> is_empty f"
  shows "solve_body m f \<noteq> Inl (IndexError PendingList)"
proof
  assume a: "solve_body m f = Inl (IndexError PendingList)"
  from remove_nonempty[OF assms] obtain n f' where r: "remove f = Inr (n, f')" by blast
  from a r show False
    by (auto simp: solve_body_def split: sum.splits if_splits
        dest: mark_explored_error apply_solution_error get_neighbors_error)
qed

lemma solve_loop_induct [case_names turn]:
  assumes "\<And>m f. (\<And>m' f'. \<not> is_empty f \<Longrightarrow> solve_body m f = Inr (False, m', f') \<Longrightarrow> P m' f')
             \<Longrightarrow> P m f"
  shows "P m f"
proof (induction m f rule: solve_loop.induct)
  case (1 m frontier)
  show ?case
  proof (rule assms)
    fix m' f'
    assume a: "\<not> is_empty frontier" "solve_body m frontier = Inr (False, m', f')"
    show "P m' f'" by (rule "1.IH"[OF a(1) a(2) refl refl]) simp
  qed
qed

lemma solve_loop_error: "solve_loop m f \<noteq> Inl (IndexError PendingList)"
proof (induction m f rule: solve_loop.induct)
  case (1 m frontier)
  show ?case
  proof (cases "is_empty frontier")
    case True
    then show ?thesis by (simp add: solve_loop.simps[of m frontier])
  next
    case False
    show ?thesis
    proof (cases "solve_body m frontier")
      case (Inl e)
      with False solve_body_error[OF False, of m] show ?thesis
        by (simp add: solve_loop.simps[of m frontier])
    next
      case (Inr r)
      obtain found m' f' where r: "r = (found, m', f')" by (cases r)
      show ?thesis
      proof (cases found)
        case True
        with False Inr r show ?thesis by (simp add: solve_loop.simps[of m frontier])
      next
        case nf: False
        from "1.IH"[OF False Inr _ _ nf, of "(m', f')" m' f'] r
        have "solve_loop m' f' \<noteq> Inl (IndexError PendingList)" by simp
        with False Inr r nf show ?thesis by (simp add: solve_loop.simps[of m frontier])
      qed
    qed
  qed
qed

lemma solve_not_pending_error:
  "solve m frontier \<noteq> Inl (IndexError PendingList)"
  by (auto simp: solve_def split: option.splits prod.splits sum.splits
      dest: get_state_error simp: solve_loop_error)

text \<open>
  Claim C8. Within any execution of \<open>solve\<close>, \<open>remove\<close> is invoked only when the pending
  list is non-empty: the indexing out of range that \<open>remove\<close> performs on an empty
  frontier, and on an empty frontier only, is never the outcome of \<open>solve\<close>, for every
  maze and every frontier of either class.
\<close>

theorem remove_only_on_nonempty_pending:
  "solve m frontier \<noteq> Inl (IndexError PendingList) \<and>
   (is_empty f \<longleftrightarrow> remove f = Inl (IndexError PendingList))"
proof -
  have "is_empty f \<longleftrightarrow> remove f = Inl (IndexError PendingList)"
  proof (cases "is_empty f")
    case True
    then show ?thesis
      by (simp add: is_empty_def remove_def list_get_def norm_index_def split: discipline.splits)
  next
    case False
    from remove_nonempty[OF this] False show ?thesis by auto
  qed
  with solve_not_pending_error show ?thesis by simp
qed

theorem remove_only_on_nonempty_pending_witness:
  "solve walled_maze (new_frontier StackFrontier) \<noteq> Inl (IndexError PendingList) \<and>
   solve walled_maze (new_frontier StackFrontier) =
     Inr (False,
          \<lparr>maze_arr = [''A/#B''], start_point = Some (0, 0), end_point = Some (0, 3),
            rows_count = 1, cells_count = 4, steps = 2\<rparr>,
          \<lparr>kind = StackFrontier, nodes = [],
            explored_nodes = [Node (CHR ''A'') 0 0 None None,
                              Node (CHR '' '') 0 1 (Some ''RIGHT'') (Some (Node (CHR ''A'') 0 0 None None))]\<rparr>) \<and>
   remove \<lparr>kind = StackFrontier, nodes = [],
            explored_nodes = [Node (CHR ''A'') 0 0 None None,
                              Node (CHR '' '') 0 1 (Some ''RIGHT'') (Some (Node (CHR ''A'') 0 0 None None))]\<rparr>
     = Inl (IndexError PendingList)"
proof -
  have a: "solve walled_maze (new_frontier StackFrontier) =
     Inr (False,
          \<lparr>maze_arr = [''A/#B''], start_point = Some (0, 0), end_point = Some (0, 3),
            rows_count = 1, cells_count = 4, steps = 2\<rparr>,
          \<lparr>kind = StackFrontier, nodes = [],
            explored_nodes = [Node (CHR ''A'') 0 0 None None,
                              Node (CHR '' '') 0 1 (Some ''RIGHT'') (Some (Node (CHR ''A'') 0 0 None None))]\<rparr>)"
    by code_simp
  have b: "is_empty \<lparr>kind = StackFrontier, nodes = [],
            explored_nodes = [Node (CHR ''A'') 0 0 None None,
                              Node (CHR '' '') 0 1 (Some ''RIGHT'') (Some (Node (CHR ''A'') 0 0 None None))]\<rparr>"
    by (simp add: is_empty_def)
  from remove_only_on_nonempty_pending[of walled_maze "new_frontier StackFrontier"
      "\<lparr>kind = StackFrontier, nodes = [],
            explored_nodes = [Node (CHR ''A'') 0 0 None None,
                              Node (CHR '' '') 0 1 (Some ''RIGHT'') (Some (Node (CHR ''A'') 0 0 None None))]\<rparr>"]
    a b show ?thesis by blast
qed

section \<open>The step counter\<close>

text \<open>
  The number of nodes that a call has removed from the frontier: every \<open>remove\<close> appends
  one node to the explored list and nothing else changes that list.
\<close>

definition pops :: "frontier \<Rightarrow> frontier \<Rightarrow> int" where
  "pops f f' = int (length (explored_nodes f')) - int (length (explored_nodes f))"

lemma set_state_fields:
  assumes "set_state m i j v = Inr m'"
  shows "steps m' = steps m" "rows_count m' = rows_count m" "cells_count m' = cells_count m"
    "start_point m' = start_point m" "end_point m' = end_point m"
    "length (maze_arr m') = length (maze_arr m)"
  using set_state_InrD[OF assms] by auto

lemma mark_explored_steps: "mark_explored m n = Inr m' \<Longrightarrow> steps m' = steps m"
  unfolding mark_explored_def
  by (cases "get_state m (x n) (y n)") (simp_all add: set_state_fields(1))

lemma walk_back_steps: "walk_back m p = Inr m' \<Longrightarrow> steps m' = steps m"
proof (induction m p arbitrary: m' rule: walk_back.induct)
  case (1 m)
  then show ?case by simp
next
  case (2 m st i j a p)
  show ?case
  proof (cases "st \<noteq> START")
    case True
    with "2.prems" obtain m1 where s: "set_state m i j (CHR ''*'') = Inr m1"
      and w: "walk_back m1 p = Inr m'"
      by (auto split: sum.splits)
    from "2.IH"[OF True s w] set_state_fields(1)[OF s] show ?thesis by simp
  next
    case False
    with "2.prems" show ?thesis by simp
  qed
qed

lemma apply_solution_steps: "apply_solution m n = Inr m' \<Longrightarrow> steps m' = steps m"
  unfolding apply_solution_def by (rule walk_back_steps)

lemma explored_foldl_add [simp]: "explored_nodes (foldl add f ns) = explored_nodes f"
  by (induction ns arbitrary: f) simp_all

lemma kind_foldl_add [simp]: "kind (foldl add f ns) = kind f"
  by (induction ns arbitrary: f) simp_all

lemma solve_body_InrD:
  assumes "solve_body m f = Inr (found, m', f')"
  shows "\<exists>node f1 m1. remove f = Inr (node, f1) \<and>
           mark_explored (m\<lparr>steps := steps m + 1\<rparr>) node = Inr m1 \<and>
           found = (state node = TARGET) \<and>
           (if found then apply_solution m1 node = Inr m' \<and> f' = f1
            else m' = m1 \<and> (\<exists>new_nodes. get_neighbors m1 node = Inr new_nodes \<and>
                                 f' = foldl add f1 new_nodes))"
  using assms by (auto simp: solve_body_def split: sum.splits prod.splits if_splits)

lemma solve_body_counts:
  assumes "solve_body m f = Inr (found, m', f')"
  shows "steps m' = steps m + 1" and "\<exists>node. explored_nodes f' = explored_nodes f @ [node]"
proof -
  from solve_body_InrD[OF assms] obtain node f1 m1 where
    rm: "remove f = Inr (node, f1)"
    and mk: "mark_explored (m\<lparr>steps := steps m + 1\<rparr>) node = Inr m1"
    and rest: "if found then apply_solution m1 node = Inr m' \<and> f' = f1
            else m' = m1 \<and> (\<exists>new_nodes. get_neighbors m1 node = Inr new_nodes \<and>
                                 f' = foldl add f1 new_nodes)"
    by blast
  from mark_explored_steps[OF mk] have s1: "steps m1 = steps m + 1" by simp
  from remove_InrD[OF rm] have e1: "explored_nodes f1 = explored_nodes f @ [node]" by simp
  show "steps m' = steps m + 1"
    using rest s1 by (auto split: if_splits dest: apply_solution_steps)
  show "\<exists>node. explored_nodes f' = explored_nodes f @ [node]"
    using rest e1 by (auto split: if_splits)
qed

lemma solve_loop_cases:
  "solve_loop m f = Inr (r, m', f') \<Longrightarrow>
     (is_empty f \<and> r = False \<and> m' = m \<and> f' = f) \<or>
     (\<not> is_empty f \<and> solve_body m f = Inr (True, m', f') \<and> r = True) \<or>
     (\<not> is_empty f \<and> (\<exists>m1 f1. solve_body m f = Inr (False, m1, f1) \<and>
          solve_loop m1 f1 = Inr (r, m', f')))"
  by (subst (asm) solve_loop.simps) (auto split: if_splits sum.splits prod.splits)

lemma solve_loop_counts:
  "solve_loop m f = Inr (r, m', f') \<Longrightarrow> steps m' = steps m + pops f f' \<and> 0 \<le> pops f f'"
proof (induction m f rule: solve_loop.induct)
  case (1 m frontier)
  from solve_loop_cases[OF "1.prems"] show ?case
  proof (elim disjE conjE exE)
    assume "is_empty frontier" "m' = m" "f' = frontier"
    then show ?thesis by (simp add: pops_def)
  next
    assume "solve_body m frontier = Inr (True, m', f')"
    from solve_body_counts[OF this] show ?thesis by (auto simp: pops_def)
  next
    fix m1 f1
    assume ne: "\<not> is_empty frontier" and b: "solve_body m frontier = Inr (False, m1, f1)"
      and l: "solve_loop m1 f1 = Inr (r, m', f')"
    from "1.IH"[OF ne b refl refl _ l]
    have "steps m' = steps m1 + pops f1 f' \<and> 0 \<le> pops f1 f'" by simp
    with solve_body_counts[OF b] show ?thesis by (auto simp: pops_def)
  qed
qed

lemma solve_InrD:
  "solve m f = Inr res \<Longrightarrow>
   \<exists>i j st. start_point m = Some (i, j) \<and> get_state m i j = Inr st \<and>
      solve_loop m (add f (Node st i j None None)) = Inr res"
  by (auto simp: solve_def split: option.splits prod.splits sum.splits)

lemma Maze_init_InrD:
  "Maze_init arr = Inr m \<Longrightarrow>
     m = \<lparr>maze_arr = arr, start_point = fst (get_start_end_points arr),
          end_point = snd (get_start_end_points arr), rows_count = int (length arr),
          cells_count = int (length (arr ! 0)), steps = 0\<rparr> \<and>
     validate_maze_points arr (fst (get_start_end_points arr)) (snd (get_start_end_points arr)) = Inr ()"
  by (auto simp: Maze_init_def split: prod.splits sum.splits)

text \<open>
  Claim C10. The step counter is 0 after construction and \<open>solve\<close> never resets it:
  after a call it is its value before the call plus the number of nodes removed during
  the call, so a second call on the same maze reports the total over both calls.
\<close>

theorem steps_accumulate_over_calls:
  "(Maze_init arr = Inr m0 \<longrightarrow> steps m0 = 0) \<and>
   (solve m f = Inr (r, m', f') \<longrightarrow> steps m' = steps m + pops f f' \<and> 0 \<le> pops f f') \<and>
   (solve m f = Inr (r, m', f') \<and> solve m' g = Inr (r2, m2, g2) \<longrightarrow>
      steps m2 = steps m + pops f f' + pops g g2)"
proof -
  have a: "steps m' = steps m + pops f f' \<and> 0 \<le> pops f f'"
    if "solve m f = Inr (r, m', f')" for m f r m' f'
  proof -
    from solve_InrD[OF that] obtain i j st where
      "solve_loop m (add f (Node st i j None None)) = Inr (r, m', f')" by blast
    from solve_loop_counts[OF this] show ?thesis by (simp add: pops_def)
  qed
  show ?thesis using a by (auto dest: Maze_init_InrD)
qed

theorem steps_accumulate_over_calls_witness:
  "Maze_init [''  '', ''AB''] =
     Inr \<lparr>maze_arr = [''  '', ''AB''], start_point = Some (1, 0), end_point = Some (1, 1),
           rows_count = 2, cells_count = 2, steps = 0\<rparr> \<and>
   solve \<lparr>maze_arr = [''  '', ''AB''], start_point = Some (1, 0), end_point = Some (1, 1),
           rows_count = 2, cells_count = 2, steps = 0\<rparr> (new_frontier QueueFrontier) =
     Inr (True,
          \<lparr>maze_arr = [''/ '', ''AB''], start_point = Some (1, 0), end_point = Some (1, 1),
            rows_count = 2, cells_count = 2, steps = 3\<rparr>,
          \<lparr>kind = QueueFrontier,
            nodes = [Node (CHR '' '') 0 1 (Some ''RIGHT'')
                      (Some (Node (CHR '' '') 0 0 (Some ''UP'') (Some (Node (CHR ''A'') 1 0 None None))))],
            explored_nodes =
              [Node (CHR ''A'') 1 0 None None,
               Node (CHR '' '') 0 0 (Some ''UP'') (Some (Node (CHR ''A'') 1 0 None None)),
               Node (CHR ''B'') 1 1 (Some ''RIGHT'') (Some (Node (CHR ''A'') 1 0 None None))]\<rparr>) \<and>
   solve \<lparr>maze_arr = [''/ '', ''AB''], start_point = Some (1, 0), end_point = Some (1, 1),
            rows_count = 2, cells_count = 2, steps = 3\<rparr> (new_frontier StackFrontier) =
     Inr (True,
          \<lparr>maze_arr = [''/ '', ''AB''], start_point = Some (1, 0), end_point = Some (1, 1),
            rows_count = 2, cells_count = 2, steps = 5\<rparr>,
          \<lparr>kind = StackFrontier,
            nodes = [Node (CHR ''/'') 0 0 (Some ''UP'') (Some (Node (CHR ''A'') 1 0 None None))],
            explored_nodes =
              [Node (CHR ''A'') 1 0 None None,
               Node (CHR ''B'') 1 1 (Some ''RIGHT'') (Some (Node (CHR ''A'') 1 0 None None))]\<rparr>) \<and>
   (5::int) = 0 + 3 + 2"
proof -
  let ?m0 = "\<lparr>maze_arr = [''  '', ''AB''], start_point = Some (1, 0), end_point = Some (1, 1),
           rows_count = 2, cells_count = 2, steps = 0\<rparr>"
  let ?m1 = "\<lparr>maze_arr = [''/ '', ''AB''], start_point = Some (1, 0), end_point = Some (1, 1),
            rows_count = 2, cells_count = 2, steps = 3\<rparr>"
  let ?m2 = "\<lparr>maze_arr = [''/ '', ''AB''], start_point = Some (1, 0), end_point = Some (1, 1),
            rows_count = 2, cells_count = 2, steps = 5\<rparr>"
  let ?f1 = "\<lparr>kind = QueueFrontier,
            nodes = [Node (CHR '' '') 0 1 (Some ''RIGHT'')
                      (Some (Node (CHR '' '') 0 0 (Some ''UP'') (Some (Node (CHR ''A'') 1 0 None None))))],
            explored_nodes =
              [Node (CHR ''A'') 1 0 None None,
               Node (CHR '' '') 0 0 (Some ''UP'') (Some (Node (CHR ''A'') 1 0 None None)),
               Node (CHR ''B'') 1 1 (Some ''RIGHT'') (Some (Node (CHR ''A'') 1 0 None None))]\<rparr>"
  let ?f2 = "\<lparr>kind = StackFrontier,
            nodes = [Node (CHR ''/'') 0 0 (Some ''UP'') (Some (Node (CHR ''A'') 1 0 None None))],
            explored_nodes =
              [Node (CHR ''A'') 1 0 None None,
               Node (CHR ''B'') 1 1 (Some ''RIGHT'') (Some (Node (CHR ''A'') 1 0 None None))]\<rparr>"
  have i: "Maze_init [''  '', ''AB''] = Inr ?m0" by code_simp
  have a: "solve ?m0 (new_frontier QueueFrontier) = Inr (True, ?m1, ?f1)" by code_simp
  have b: "solve ?m1 (new_frontier StackFrontier) = Inr (True, ?m2, ?f2)" by code_simp
  have p: "pops (new_frontier QueueFrontier) ?f1 = 3" "pops (new_frontier StackFrontier) ?f2 = 2"
    by (simp_all add: pops_def new_frontier_def)
  from steps_accumulate_over_calls[of "[''  '', ''AB'']" ?m0 ?m0 "new_frontier QueueFrontier"
      True ?m1 ?f1 "new_frontier StackFrontier" True ?m2 ?f2] a b p
  have "steps ?m2 = steps ?m0 + 3 + 2" by simp
  then have "(5::int) = 0 + 3 + 2" by simp
  with i a b show ?thesis by blast
qed

end
